theory Spec2Isabelle
  imports Main
begin

section \<open>The worker/request graph of the workgraph package\<close>

text \<open>
  The package keeps two kinds of heap objects: \<^verbatim>\<open>workerInner\<close> and \<^verbatim>\<open>requestInner\<close>.
  Pointers to them are modelled as addresses (natural numbers handed out by two
  allocation counters), and the fields of all objects of one kind as one function from
  addresses to field values. The exported \<^verbatim>\<open>Worker\<close> handle only wraps a
  \<^verbatim>\<open>*workerInner\<close>, and \<^verbatim>\<open>Resolver[T]\<close> and \<^verbatim>\<open>Promise[T]\<close> only wrap a
  \<^verbatim>\<open>*requestInner\<close>, so a handle is identified with the address of its inner object.
\<close>

type_synonym worker = nat
type_synonym req = nat

text \<open>
  \<^verbatim>\<open>RequestID\<close> wraps a weak pointer and is compared by pointer identity; its zero
  value holds no pointer.
\<close>

datatype RequestID = NoRequest | RequestID req

text \<open>
  A Go interface value is either nil or holds a value: \<open>None\<close> is the nil interface.
  A value of the type parameter \<^verbatim>\<open>T\<close> that is passed where \<^verbatim>\<open>any\<close> is expected
  converts to a non-nil interface, unless \<^verbatim>\<open>T\<close> is itself an interface type and the
  value is its nil.
\<close>

type_synonym 'v any = "'v option"

datatype 'e go_error =
    ErrUnresolved RequestID
  | ErrSelfDependency "RequestID list"
  | OtherError 'e

type_synonym 'e error = "'e go_error option"

record ('v, 'e) requestResult =
  res_value :: "'v any"
  res_err :: "'e error"

text \<open>
  A panic, with its message. Two messages print pointers with \<^verbatim>\<open>%p\<close>; they carry the
  addresses instead of the formatted text.
\<close>

datatype panic =
    Panic string
  | PanicWrongWorker worker worker
  | PanicAwaitsMultiple worker

record ('v, 'e) heap =
  responsible :: "req \<Rightarrow> worker"
  result :: "req \<Rightarrow> ('v, 'e) requestResult option"
  awaiting :: "worker \<Rightarrow> req option"
  responsibleFor :: "worker \<Rightarrow> req list"
  reqCount :: nat
  workerCount :: nat

text \<open>
  \<^verbatim>\<open>responsibleFor\<close> is a Go map used as a set; the list gives its keys in the order a
  \<^verbatim>\<open>range\<close> loop visits them.
\<close>

definition init :: "('v, 'e) heap" where
  "init = \<lparr> responsible = (\<lambda>_. 0), result = (\<lambda>_. None), awaiting = (\<lambda>_. None),
            responsibleFor = (\<lambda>_. []), reqCount = 0, workerCount = 0 \<rparr>"

subsection \<open>Results\<close>

definition newExplicitResult :: "'v any \<Rightarrow> 'e error \<Rightarrow> panic + ('v, 'e) requestResult" where
  "newExplicitResult val err =
     (if val = None then Inl (Panic ''explicit resolution with nil value'')
      else Inr \<lparr> res_value = val, res_err = err \<rparr>)"

definition newUsageFaultResult :: "'e error \<Rightarrow> ('v, 'e) requestResult" where
  "newUsageFaultResult err = \<lparr> res_value = None, res_err = err \<rparr>"

definition IsExplicit :: "('v, 'e) requestResult \<Rightarrow> bool" where
  "IsExplicit rr = (res_value rr \<noteq> None)"


subsection \<open>Resolving a request\<close>

text \<open>
  Both resolution functions run under the request's mutex. Every panic of
  \<^verbatim>\<open>resolveExplicit\<close> is raised before anything is stored, so a panicking call returns
  no new heap: the heap stays as it was.
\<close>

definition resolveExplicit ::
  "req \<Rightarrow> worker \<Rightarrow> 'v any \<Rightarrow> 'e error \<Rightarrow> ('v, 'e) heap \<Rightarrow> panic + ('v, 'e) heap" where
  "resolveExplicit ri resolvingWorker val err s =
     (if resolvingWorker \<noteq> responsible s ri
      then Inl (PanicWrongWorker resolvingWorker (responsible s ri))
      else case result s ri of
        Some resolution \<Rightarrow>
          if IsExplicit resolution then Inl (Panic ''request resolved multiple times'')
          else Inr s
      | None \<Rightarrow>
          (case newExplicitResult val err of
             Inl p \<Rightarrow> Inl p
           | Inr rr \<Rightarrow> Inr (s\<lparr> result := (result s)(ri \<mapsto> rr) \<rparr>)))"

definition resolveUsageFault :: "req \<Rightarrow> 'e error \<Rightarrow> ('v, 'e) heap \<Rightarrow> ('v, 'e) heap" where
  "resolveUsageFault ri err s =
     (case result s ri of
        Some r \<Rightarrow> s
      | None \<Rightarrow> s\<lparr> result := (result s)(ri \<mapsto> newUsageFaultResult err) \<rparr>)"

text \<open>The resolver's typed methods hand their arguments on.\<close>

definition Report ::
  "req \<Rightarrow> worker \<Rightarrow> 'v any \<Rightarrow> 'e error \<Rightarrow> ('v, 'e) heap \<Rightarrow> panic + ('v, 'e) heap" where
  "Report r resolvingWorker val err s = resolveExplicit r resolvingWorker val err s"

definition ReportSuccess ::
  "req \<Rightarrow> worker \<Rightarrow> 'v any \<Rightarrow> ('v, 'e) heap \<Rightarrow> panic + ('v, 'e) heap" where
  "ReportSuccess r resolvingWorker val s = Report r resolvingWorker val None s"

subsection \<open>Creating workers and requests\<close>

definition setResponsibleWorker :: "req \<Rightarrow> worker \<Rightarrow> ('v, 'e) heap \<Rightarrow> ('v, 'e) heap" where
  "setResponsibleWorker ri new s = s\<lparr> responsible := (responsible s)(ri := new) \<rparr>"

text \<open>
  \<^verbatim>\<open>newRequestInner\<close> allocates a request with no result and stores the responsible
  worker; it returns the new address.
\<close>

definition newRequestInner :: "worker \<Rightarrow> ('v, 'e) heap \<Rightarrow> req \<times> ('v, 'e) heap" where
  "newRequestInner responsibleWorker s =
     (let ret = reqCount s;
          s1 = s\<lparr> reqCount := Suc ret, result := (result s)(ret := None) \<rparr>
      in (ret, setResponsibleWorker ret responsibleWorker s1))"

definition NewRequest :: "worker \<Rightarrow> ('v, 'e) heap \<Rightarrow> req \<times> ('v, 'e) heap" where
  "NewRequest responsibleWorker s = newRequestInner responsibleWorker s"

text \<open>\<^verbatim>\<open>newWorkerInner\<close>: awaiting nothing, with an empty \<^verbatim>\<open>responsibleFor\<close> map.\<close>

definition newWorkerInner :: "('v, 'e) heap \<Rightarrow> worker \<times> ('v, 'e) heap" where
  "newWorkerInner s =
     (let w = workerCount s
      in (w, s\<lparr> workerCount := Suc w, awaiting := (awaiting s)(w := None),
                responsibleFor := (responsibleFor s)(w := []) \<rparr>))"

text \<open>
  \<^verbatim>\<open>NewWorker\<close>: the delegated containers yield resolvers, given here as the list of
  their requests in the order the loops reach them.
\<close>

definition NewWorker :: "req list \<Rightarrow> ('v, 'e) heap \<Rightarrow> worker \<times> ('v, 'e) heap" where
  "NewWorker delegated s =
     (let (newInner, s1) = newWorkerInner s
      in (newInner, fold (\<lambda>inner. setResponsibleWorker inner newInner) delegated s1))"

text \<open>
  \<^verbatim>\<open>handleDropped\<close> is the cleanup that runs once the \<^verbatim>\<open>Worker\<close> handle has been
  collected.
\<close>

definition handleDropped :: "worker \<Rightarrow> ('v, 'e) heap \<Rightarrow> ('v, 'e) heap" where
  "handleDropped wi s =
     fold (\<lambda>req. resolveUsageFault req (Some (ErrUnresolved (RequestID req))))
       (responsibleFor s wi) s"

subsection \<open>Sequences of resolution calls\<close>

datatype ('v, 'e) resolve_call =
    CallExplicit req worker "'v any" "'e error"
  | CallUsageFault req "'e error"

text \<open>A call that panics leaves the heap as it was.\<close>

fun apply_call :: "('v, 'e) resolve_call \<Rightarrow> ('v, 'e) heap \<Rightarrow> ('v, 'e) heap" where
  "apply_call (CallExplicit ri w val err) s =
     (case resolveExplicit ri w val err s of Inl p \<Rightarrow> s | Inr s' \<Rightarrow> s')"
| "apply_call (CallUsageFault ri err) s = resolveUsageFault ri err s"

subsection \<open>Self-dependency detection\<close>

text \<open>
  The loop of \<^verbatim>\<open>detectSelfDependency\<close>. It may hop for ever, so it runs on fuel: one
  unit per evaluation of the loop condition, and \<open>None\<close> when the fuel is used up
  before the loop ends. \<^verbatim>\<open>currentReq\<close> is an address and hence never nil: the first
  \<^verbatim>\<open>break\<close> of the source has no counterpart. After the loop the function returns
  \<^verbatim>\<open>currentWorker == requestingWorker\<close> and the collected requests.
\<close>

fun detectSelfDependency_loop ::
  "nat \<Rightarrow> ('v, 'e) heap \<Rightarrow> worker \<Rightarrow> bool \<Rightarrow> req \<Rightarrow> worker \<Rightarrow> req list
     \<Rightarrow> (bool \<times> req list) option" where
  "detectSelfDependency_loop 0 s requestingWorker collectFailedReqs currentReq currentWorker
     failedReqs = None"
| "detectSelfDependency_loop (Suc fuel) s requestingWorker collectFailedReqs currentReq
     currentWorker failedReqs =
     (if currentWorker = requestingWorker
      then Some (currentWorker = requestingWorker, failedReqs)
      else case awaiting s currentWorker of
        None \<Rightarrow> Some (currentWorker = requestingWorker, failedReqs)
      | Some nextReq \<Rightarrow>
          if responsible s currentReq \<noteq> currentWorker
          then Some (currentWorker = requestingWorker, failedReqs)
          else detectSelfDependency_loop fuel s requestingWorker collectFailedReqs nextReq
                 (responsible s nextReq)
                 (if collectFailedReqs then failedReqs @ [nextReq] else failedReqs))"

definition detectSelfDependency ::
  "nat \<Rightarrow> ('v, 'e) heap \<Rightarrow> req \<Rightarrow> worker \<Rightarrow> bool \<Rightarrow> (bool \<times> req list) option" where
  "detectSelfDependency fuel s currentReq requestingWorker collectFailedReqs =
     detectSelfDependency_loop fuel s requestingWorker collectFailedReqs currentReq
       (responsible s currentReq) (if collectFailedReqs then [currentReq] else [])"

subsection \<open>Awaiting a request\<close>

text \<open>
  An await either returns a resolution or blocks on the condition variable. A blocked
  call keeps the worker's \<^verbatim>\<open>awaiting\<close> pointer set; it goes on in
  \<open>await_resume\<close> once it is woken.
\<close>

datatype ('v, 'e) outcome = Returned "('v, 'e) requestResult" | Blocked

text \<open>The compare-and-swap that claims the worker, at the start of \<^verbatim>\<open>await\<close>.\<close>

definition await_claim :: "req \<Rightarrow> worker \<Rightarrow> ('v, 'e) heap \<Rightarrow> panic + ('v, 'e) heap" where
  "await_claim ri requestingWorker s =
     (if awaiting s requestingWorker = None
      then Inr (s\<lparr> awaiting := (awaiting s)(requestingWorker \<mapsto> ri) \<rparr>)
      else Inl (PanicAwaitsMultiple requestingWorker))"

text \<open>The deferred compare-and-swap that releases the worker when \<^verbatim>\<open>await\<close> returns.\<close>

definition await_release ::
  "req \<Rightarrow> worker \<Rightarrow> ('v, 'e) requestResult \<Rightarrow> ('v, 'e) heap
     \<Rightarrow> (panic + ('v, 'e) outcome) \<times> ('v, 'e) heap" where
  "await_release ri requestingWorker resolution s =
     (if awaiting s requestingWorker = Some ri
      then (Inr (Returned resolution), s\<lparr> awaiting := (awaiting s)(requestingWorker := None) \<rparr>)
      else (Inl (PanicAwaitsMultiple requestingWorker), s))"

text \<open>The final loop of \<^verbatim>\<open>await\<close>, under the request's mutex.\<close>

definition await_wait ::
  "req \<Rightarrow> worker \<Rightarrow> ('v, 'e) heap \<Rightarrow> (panic + ('v, 'e) outcome) \<times> ('v, 'e) heap" where
  "await_wait ri requestingWorker s =
     (case result s ri of
        Some resolution \<Rightarrow> await_release ri requestingWorker resolution s
      | None \<Rightarrow> (Inr Blocked, s))"

text \<open>
  The loop of \<^verbatim>\<open>await\<close> that fails every collected request with the one
  \<^verbatim>\<open>ErrSelfDependency\<close> built from their ids.
\<close>

definition resolveAll :: "req list \<Rightarrow> ('v, 'e) heap \<Rightarrow> ('v, 'e) heap" where
  "resolveAll failedResults s =
     fold (\<lambda>r. resolveUsageFault r (Some (ErrSelfDependency (map RequestID failedResults))))
       failedResults s"

definition await ::
  "nat \<Rightarrow> req \<Rightarrow> worker \<Rightarrow> ('v, 'e) heap
     \<Rightarrow> ((panic + ('v, 'e) outcome) \<times> ('v, 'e) heap) option" where
  "await fuel ri requestingWorker s =
     (case await_claim ri requestingWorker s of
        Inl p \<Rightarrow> Some (Inl p, s)
      | Inr s1 \<Rightarrow>
          (case detectSelfDependency fuel s1 ri requestingWorker False of
             None \<Rightarrow> None
           | Some (selfDependency, _) \<Rightarrow>
               if selfDependency
               then (case detectSelfDependency fuel s1 ri requestingWorker True of
                       None \<Rightarrow> None
                     | Some (_, failedResults) \<Rightarrow>
                         Some (await_wait ri requestingWorker (resolveAll failedResults s1)))
               else Some (await_wait ri requestingWorker s1)))"

text \<open>\<^verbatim>\<open>Promise.Await\<close>: the two fast paths, then the slow path.\<close>

definition Promise_Await ::
  "nat \<Rightarrow> req \<Rightarrow> worker \<Rightarrow> ('v, 'e) heap
     \<Rightarrow> ((panic + ('v, 'e) outcome) \<times> ('v, 'e) heap) option" where
  "Promise_Await fuel rc requestingWorker s =
     (if awaiting s requestingWorker \<noteq> None
      then Some (Inl (PanicAwaitsMultiple requestingWorker), s)
      else case result s rc of
        Some r \<Rightarrow> Some (Inr (Returned r), s)
      | None \<Rightarrow> await fuel rc requestingWorker s)"

text \<open>
  A call of \<^verbatim>\<open>await\<close> on \<open>ri\<close> that blocked is woken by the broadcast and goes
  round its final loop again.
\<close>

definition await_resume ::
  "req \<Rightarrow> worker \<Rightarrow> ('v, 'e) heap \<Rightarrow> (panic + ('v, 'e) outcome) \<times> ('v, 'e) heap" where
  "await_resume ri requestingWorker s = await_wait ri requestingWorker s"

subsection \<open>Executions\<close>

text \<open>
  The operations of the package, each run to its end or to the point where it blocks,
  one after the other. Operations name objects that exist: a Go pointer always refers
  to an allocated object, and only a blocked call can be resumed.
\<close>

datatype ('v, 'e) op =
    OpNewWorker "req list"
  | OpNewRequest worker
  | OpReport req worker "'v any" "'e error"
  | OpAwait req worker
  | OpResume req worker
  | OpDropped worker

fun valid_op :: "('v, 'e) heap \<Rightarrow> ('v, 'e) op \<Rightarrow> bool" where
  "valid_op s (OpNewWorker delegated) = list_all (\<lambda>r. r < reqCount s) delegated"
| "valid_op s (OpNewRequest w) = (w < workerCount s)"
| "valid_op s (OpReport r w val err) = (r < reqCount s \<and> w < workerCount s)"
| "valid_op s (OpAwait r w) = (r < reqCount s \<and> w < workerCount s)"
| "valid_op s (OpResume r w) = (r < reqCount s \<and> w < workerCount s \<and> awaiting s w = Some r)"
| "valid_op s (OpDropped w) = (w < workerCount s)"

text \<open>A step gives the next heap; a panic is caught, the heap as the panic left it.\<close>

fun step :: "nat \<Rightarrow> ('v, 'e) op \<Rightarrow> ('v, 'e) heap \<Rightarrow> ('v, 'e) heap option" where
  "step fuel (OpNewWorker delegated) s = Some (snd (NewWorker delegated s))"
| "step fuel (OpNewRequest w) s = Some (snd (NewRequest w s))"
| "step fuel (OpReport r w val err) s =
     Some (case Report r w val err s of Inl p \<Rightarrow> s | Inr s' \<Rightarrow> s')"
| "step fuel (OpAwait r w) s = map_option snd (Promise_Await fuel r w s)"
| "step fuel (OpResume r w) s = Some (snd (await_resume r w s))"
| "step fuel (OpDropped w) s = Some (handleDropped w s)"





subsection \<open>Small heaps\<close>

text \<open>
  \<^verbatim>\<open>main := NewWorker(); resolver, promise := NewRequest[T](main)\<close>: worker 0 is
  responsible for request 0, which has no result.
\<close>

definition heap_own :: "(nat, nat) heap" where
  "heap_own = snd (NewRequest 0 (snd (NewWorker [] init)))"

text \<open>The same heap after \<^verbatim>\<open>promise.Await(main)\<close>, a direct self-dependency.\<close>

definition heap_self :: "(nat, nat) heap" where
  "heap_self = (case Promise_Await 1 0 0 heap_own of Some (out, s) \<Rightarrow> s | None \<Rightarrow> heap_own)"



text \<open>
  The heap \<open>heap_own\<close> after \<^verbatim>\<open>NewWorker(resolver)\<close>: the new worker 1 is now
  responsible for request 0.
\<close>

definition heap_delegated :: "(nat, nat) heap" where
  "heap_delegated = snd (NewWorker [0] heap_own)"




subsection \<open>Once\<close>

text \<open>
  The events of an execution that concern a \<^verbatim>\<open>Once\<close>: a started goroutine calls the
  function it was given on its worker, and a call of \<^verbatim>\<open>Do\<close> returns to its caller.
\<close>

datatype ('v, 'e, 'f) event =
    is_Invoked: Invoked worker 'f
  | DoReturned worker "('v, 'e) requestResult"

text \<open>
  A heap together with one \<^verbatim>\<open>Once[T]\<close> object (its promise, nil at first, and its
  request id), the goroutines that \<^verbatim>\<open>go\<close> has started and that have not begun to
  run, the calls of \<^verbatim>\<open>Do\<close> that are blocked in their await, each with the request it
  waits for, and the events so far. A function passed to \<^verbatim>\<open>Do\<close> is a value of the
  type \<open>'f\<close>; what it does when it runs is part of the operations that follow.
\<close>

record ('v, 'e, 'f) world =
  graph :: "('v, 'e) heap"
  once_promise :: "req option"
  once_req_id :: RequestID
  goroutines :: "(worker \<times> 'f \<times> req) list"
  in_Do :: "(worker \<times> req) list"
  events :: "('v, 'e, 'f) event list"

text \<open>\<^verbatim>\<open>var once Once[T]\<close>: the zero value, in a given heap.\<close>

definition new_Once :: "('v, 'e) heap \<Rightarrow> ('v, 'e, 'f) world" where
  "new_Once h = \<lparr> graph = h, once_promise = None, once_req_id = NoRequest, goroutines = [],
                  in_Do = [], events = [] \<rparr>"

text \<open>
  \<^verbatim>\<open>WithNewAsyncWorker\<close> makes the worker and starts the goroutine. The goroutine body
  that \<^verbatim>\<open>Do\<close> passes is the closure over \<open>f\<close> and the resolver: it calls
  \<^verbatim>\<open>f(w)\<close> and reports what \<open>f\<close> returned.
\<close>

definition WithNewAsyncWorker ::
  "'f \<times> req \<Rightarrow> req list \<Rightarrow> ('v, 'e, 'f) world \<Rightarrow> ('v, 'e, 'f) world" where
  "WithNewAsyncWorker f delegated x =
     (let (worker, h) = NewWorker delegated (graph x)
      in x\<lparr> graph := h, goroutines := goroutines x @ [(worker, f)] \<rparr>)"

text \<open>The part of \<^verbatim>\<open>Do\<close> that runs under the mutex of the \<^verbatim>\<open>Once\<close>.\<close>

definition Once_Do_locked :: "worker \<Rightarrow> 'f \<Rightarrow> ('v, 'e, 'f) world \<Rightarrow> ('v, 'e, 'f) world" where
  "Once_Do_locked forWorker f x =
     (case once_promise x of
        None \<Rightarrow>
          (let (resolver, h) = NewRequest forWorker (graph x);
               x1 = x\<lparr> graph := h, once_promise := Some resolver,
                       once_req_id := RequestID resolver \<rparr>
           in WithNewAsyncWorker (f, resolver) [resolver] x1)
      | Some p \<Rightarrow> x)"

text \<open>
  \<^verbatim>\<open>Do\<close>: the locked part, then the await of the stored promise. The promise has
  been set by then; awaiting a nil promise would dereference a nil pointer.
\<close>

definition Once_Do ::
  "nat \<Rightarrow> worker \<Rightarrow> 'f \<Rightarrow> ('v, 'e, 'f) world
     \<Rightarrow> ((panic + ('v, 'e) outcome) \<times> ('v, 'e, 'f) world) option" where
  "Once_Do fuel forWorker f x =
     (let x1 = Once_Do_locked forWorker f x
      in case once_promise x1 of
           None \<Rightarrow> Some (Inl (Panic ''nil pointer dereference''), x1)
         | Some p \<Rightarrow>
             map_option (\<lambda>(out, h). (out, x1\<lparr> graph := h \<rparr>))
               (Promise_Await fuel p forWorker (graph x1)))"

definition Once_RequestID :: "('v, 'e, 'f) world \<Rightarrow> RequestID" where
  "Once_RequestID x = once_req_id x"

text \<open>
  Executions with a \<^verbatim>\<open>Once\<close>: any operation of the package, a call of \<^verbatim>\<open>Do\<close>, the
  wake-up of a blocked call of \<^verbatim>\<open>Do\<close>, and the start of a goroutine, which calls its
  function. The report that ends the goroutine is an \<open>OpReport\<close> with whatever the
  function returned. A blocked call of \<^verbatim>\<open>Do\<close> is resumed by \<open>OpDoResume\<close> only.
\<close>

datatype ('v, 'e, 'f) wop =
    Lib "('v, 'e) op"
  | OpDo worker 'f
  | OpDoResume worker
  | OpGo nat

fun resumes_Do :: "('v, 'e, 'f) world \<Rightarrow> ('v, 'e) op \<Rightarrow> bool" where
  "resumes_Do x (OpResume r w) = ((w, r) \<in> set (in_Do x))"
| "resumes_Do x (OpNewWorker ds) = False"
| "resumes_Do x (OpNewRequest w) = False"
| "resumes_Do x (OpReport r w val err) = False"
| "resumes_Do x (OpAwait r w) = False"
| "resumes_Do x (OpDropped w) = False"

fun stepW :: "nat \<Rightarrow> ('v, 'e, 'f) wop \<Rightarrow> ('v, 'e, 'f) world \<Rightarrow> ('v, 'e, 'f) world option" where
  "stepW fuel (Lib a) x =
     (if valid_op (graph x) a \<and> \<not> resumes_Do x a
      then map_option (\<lambda>h. x\<lparr> graph := h \<rparr>) (step fuel a (graph x))
      else None)"
| "stepW fuel (OpDo forWorker f) x =
     (if forWorker < workerCount (graph x)
      then case Once_Do fuel forWorker f x of
             None \<Rightarrow> None
           | Some (Inl p, x1) \<Rightarrow> Some x1
           | Some (Inr Blocked, x1) \<Rightarrow>
               (case once_promise x1 of
                  None \<Rightarrow> Some x1
                | Some ri \<Rightarrow> Some (x1\<lparr> in_Do := in_Do x1 @ [(forWorker, ri)] \<rparr>))
           | Some (Inr (Returned res), x1) \<Rightarrow>
               Some (x1\<lparr> events := events x1 @ [DoReturned forWorker res] \<rparr>)
      else None)"
| "stepW fuel (OpDoResume forWorker) x =
     (case map_of (in_Do x) forWorker of
        None \<Rightarrow> None
      | Some ri \<Rightarrow>
          (case await_resume ri forWorker (graph x) of
             (Inl p, h) \<Rightarrow>
               Some (x\<lparr> graph := h, in_Do := remove1 (forWorker, ri) (in_Do x) \<rparr>)
           | (Inr Blocked, h) \<Rightarrow> Some (x\<lparr> graph := h \<rparr>)
           | (Inr (Returned res), h) \<Rightarrow>
               Some (x\<lparr> graph := h, in_Do := remove1 (forWorker, ri) (in_Do x),
                        events := events x @ [DoReturned forWorker res] \<rparr>)))"
| "stepW fuel (OpGo i) x =
     (if i < length (goroutines x)
      then (case goroutines x ! i of
              (worker, f, resolver) \<Rightarrow>
                Some (x\<lparr> goroutines := take i (goroutines x) @ drop (Suc i) (goroutines x),
                         events := events x @ [Invoked worker f] \<rparr>))
      else None)"

fun runW :: "nat \<Rightarrow> ('v, 'e, 'f) wop list \<Rightarrow> ('v, 'e, 'f) world \<Rightarrow> ('v, 'e, 'f) world option" where
  "runW fuel [] x = Some x"
| "runW fuel (a # as) x = (case stepW fuel a x of None \<Rightarrow> None | Some x' \<Rightarrow> runW fuel as x')"

text \<open>
  Two workers call \<^verbatim>\<open>Do\<close> on the same \<^verbatim>\<open>Once\<close> with the functions 10 and 20;
  both block, the goroutine runs function 10 and reports \<open>(7, nil)\<close>, and both calls
  are woken.
\<close>

definition world_twice :: "(nat, nat, nat) world" where
  "world_twice =
     (case runW 2 [Lib (OpNewWorker []), Lib (OpNewWorker []), OpDo 0 10, OpDo 1 20, OpGo 0,
                   Lib (OpReport 0 2 (Some 7) None), OpDoResume 0, OpDoResume 1]
             (new_Once init) of
        Some x \<Rightarrow> x
      | None \<Rightarrow> new_Once init)"

text \<open>
  Before the first call of \<^verbatim>\<open>Do\<close> nothing has happened to the \<^verbatim>\<open>Once\<close>. After
  it, the promise is that of one allocated request \<open>p\<close>; the only goroutine ever
  started is the one of worker \<open>N\<close> with function \<open>f\<close>, and it has either not begun
  or called \<open>f\<close> once; every call of \<^verbatim>\<open>Do\<close> that has returned has returned the
  stored resolution of \<open>p\<close>, and every blocked one waits for \<open>p\<close>.
\<close>

definition once_idle :: "('v, 'e, 'f) world \<Rightarrow> bool" where
  "once_idle x = (once_promise x = None \<and> goroutines x = [] \<and> in_Do x = [] \<and> events x = [])"

definition once_started :: "'f \<Rightarrow> worker \<Rightarrow> req \<Rightarrow> ('v, 'e, 'f) world \<Rightarrow> bool" where
  "once_started f N p x =
     (once_promise x = Some p \<and> p < reqCount (graph x)
      \<and> set (goroutines x) \<subseteq> {(N, f, p)}
      \<and> length (goroutines x) + length (filter is_Invoked (events x)) \<le> 1
      \<and> (\<forall>e \<in> set (events x). e = Invoked N f
            \<or> (\<exists>w res. e = DoReturned w res \<and> result (graph x) p = Some res))
      \<and> (\<forall>fr \<in> set (in_Do x). snd fr = p))"

section \<open>Properties of resolution\<close>

lemma resolveUsageFault_resolved:
  "result s ri = Some rr \<Longrightarrow> resolveUsageFault ri err s = s"
  by (simp add: resolveUsageFault_def)

lemma resolveUsageFault_keeps:
  "result s r = Some rr \<Longrightarrow> result (resolveUsageFault ri err s) r = Some rr"
  by (cases "result s ri") (auto simp: resolveUsageFault_def)

lemma resolveExplicit_keeps:
  "result s r = Some rr \<Longrightarrow> resolveExplicit ri w val err s = Inr s' \<Longrightarrow> result s' r = Some rr"
  by (auto simp: resolveExplicit_def newExplicitResult_def split: if_splits option.splits)

lemma apply_call_keeps:
  "result s r = Some rr \<Longrightarrow> result (apply_call c s) r = Some rr"
proof (cases c)
  case (CallExplicit ri w val err)
  assume res: "result s r = Some rr"
  show ?thesis
  proof (cases "resolveExplicit ri w val err s")
    case (Inl p)
    with CallExplicit res show ?thesis by simp
  next
    case (Inr s')
    with CallExplicit res resolveExplicit_keeps [OF res Inr] show ?thesis by simp
  qed
next
  case (CallUsageFault ri err)
  assume "result s r = Some rr"
  with CallUsageFault show ?thesis by (simp add: resolveUsageFault_keeps)
qed

lemma fold_apply_call_keeps:
  "result s r = Some rr \<Longrightarrow> result (fold apply_call cs s) r = Some rr"
  by (induction cs arbitrary: s) (simp_all add: apply_call_keeps)

text \<open>
  C5. The resolution slot is monotonic. Once a request holds a resolution, every sequence
  of \<^verbatim>\<open>resolveExplicit\<close> and \<^verbatim>\<open>resolveUsageFault\<close> calls (on any requests, by any
  workers, panicking or not) leaves it resolved, in fact with the very same resolution;
  and \<^verbatim>\<open>resolveUsageFault\<close> applied to a resolved request, whether the resolution is
  explicit or a fault, returns the heap unchanged.
\<close>

theorem resolution_monotonic:
  assumes "result s r = Some rr"
  shows "result (fold apply_call cs s) r \<noteq> None
       \<and> result (fold apply_call cs s) r = Some rr
       \<and> resolveUsageFault r err s = s"
  using assms by (simp add: fold_apply_call_keeps resolveUsageFault_resolved)

theorem resolution_monotonic_witness:
  "result heap_self 0 = Some (newUsageFaultResult (Some (ErrSelfDependency [RequestID 0])))
   \<and> result (fold apply_call [CallExplicit 0 0 (Some 7) None, CallUsageFault 0 None] heap_self) 0
       \<noteq> None
   \<and> result (fold apply_call [CallExplicit 0 0 (Some 7) None, CallUsageFault 0 None] heap_self) 0
       = Some (newUsageFaultResult (Some (ErrSelfDependency [RequestID 0])))
   \<and> resolveUsageFault 0 None heap_self = heap_self"
proof -
  have h: "result heap_self 0 = Some (newUsageFaultResult (Some (ErrSelfDependency [RequestID 0])))"
    by (simp add: heap_self_def heap_own_def Promise_Await_def await_def await_claim_def
        await_wait_def await_release_def detectSelfDependency_def resolveAll_def
        resolveUsageFault_def NewRequest_def newRequestInner_def NewWorker_def
        newWorkerInner_def setResponsibleWorker_def init_def Let_def)
  show ?thesis
    using h resolution_monotonic [OF h,
        of "[CallExplicit 0 0 (Some 7) None, CallUsageFault 0 None]" None]
    by simp
qed

section \<open>Explicit resolution\<close>

text \<open>
  C6 (as amended). When the request holds a usage-fault resolution, \<^verbatim>\<open>resolveExplicit\<close>
  by the responsible worker returns without a panic and without storing anything: the
  heap, and with it the fault, stays as it was.
\<close>

theorem resolveExplicit_after_fault:
  assumes "result s ri = Some rr" and "\<not> IsExplicit rr" and "responsible s ri = w"
  shows "resolveExplicit ri w val err s = Inr s \<and> Report ri w val err s = Inr s"
  using assms by (simp add: resolveExplicit_def Report_def)

lemma heap_self_facts:
  "result heap_self 0 = Some (newUsageFaultResult (Some (ErrSelfDependency [RequestID 0])))"
  "responsible heap_self 0 = 0"
  by (simp_all add: heap_self_def heap_own_def Promise_Await_def await_def await_claim_def
        await_wait_def await_release_def detectSelfDependency_def resolveAll_def
        resolveUsageFault_def NewRequest_def newRequestInner_def NewWorker_def
        newWorkerInner_def setResponsibleWorker_def init_def Let_def)

theorem resolveExplicit_after_fault_witness:
  "result heap_self 0 = Some (newUsageFaultResult (Some (ErrSelfDependency [RequestID 0])))
   \<and> \<not> IsExplicit (newUsageFaultResult (Some (ErrSelfDependency [RequestID 0]))
          :: (nat, nat) requestResult)
   \<and> responsible heap_self 0 = 0
   \<and> resolveExplicit 0 0 (Some 7) None heap_self = Inr heap_self
   \<and> Report 0 0 (Some 7) None heap_self = Inr heap_self"
proof -
  have e: "\<not> IsExplicit (newUsageFaultResult (Some (ErrSelfDependency [RequestID 0]))
          :: (nat, nat) requestResult)"
    by (simp add: IsExplicit_def newUsageFaultResult_def)
  show ?thesis
    using heap_self_facts e
      resolveExplicit_after_fault [OF heap_self_facts(1) e heap_self_facts(2), of "Some 7" None]
    by simp
qed

text \<open>
  The claim as it stands fails: after the explicit report of \<open>(7, nil)\<close> the stored
  resolution is still the fault, not the reported pair.
\<close>

theorem resolveExplicit_supersedes_counterexample:
  "Report 0 0 (Some 7) None heap_self = Inr heap_self
   \<and> result heap_self 0 \<noteq> Some \<lparr> res_value = Some 7, res_err = None \<rparr>"
  using heap_self_facts
  by (simp add: Report_def resolveExplicit_def IsExplicit_def newUsageFaultResult_def)


lemma heap_own_facts:
  "result heap_own 0 = None" "responsible heap_own 0 = 0" "awaiting heap_own 0 = None"
  "reqCount heap_own = 1" "workerCount heap_own = 1" "responsibleFor heap_own 0 = []"
  by (simp_all add: heap_own_def NewRequest_def newRequestInner_def NewWorker_def
        newWorkerInner_def setResponsibleWorker_def init_def Let_def)



text \<open>
  C10. When the value converts to the nil interface, \<^verbatim>\<open>Report\<close> and
  \<^verbatim>\<open>ReportSuccess\<close> by the responsible worker on an unresolved request panic with
  "explicit resolution with nil value"; the panic is raised before the store, so the
  request is not resolved.
\<close>

theorem report_nil_panics:
  assumes "responsible s r = w" and "result s r = None"
  shows "Report r w None err s = Inl (Panic ''explicit resolution with nil value'')
       \<and> ReportSuccess r w None s = Inl (Panic ''explicit resolution with nil value'')"
  using assms
  by (simp add: Report_def ReportSuccess_def resolveExplicit_def newExplicitResult_def)

theorem report_nil_panics_witness:
  "responsible heap_own 0 = 0 \<and> result heap_own 0 = None
   \<and> Report 0 0 None (Some (OtherError 3)) heap_own
       = Inl (Panic ''explicit resolution with nil value'')
   \<and> ReportSuccess 0 0 None heap_own = Inl (Panic ''explicit resolution with nil value'')"
  using heap_own_facts
    report_nil_panics [OF heap_own_facts(2) heap_own_facts(1), of "Some (OtherError 3)"]
  by simp

section \<open>Self-dependency\<close>



lemma fold_fault_result:
  "result (fold (\<lambda>r. resolveUsageFault r e) xs s) r
     = (if r \<in> set xs \<and> result s r = None then Some (newUsageFaultResult e) else result s r)"
  by (induction xs arbitrary: s) (auto simp: resolveUsageFault_def split: option.splits)

lemma fold_fault_graph:
  "awaiting (fold (\<lambda>r. resolveUsageFault r e) xs s) = awaiting s
   \<and> responsible (fold (\<lambda>r. resolveUsageFault r e) xs s) = responsible s
   \<and> reqCount (fold (\<lambda>r. resolveUsageFault r e) xs s) = reqCount s
   \<and> workerCount (fold (\<lambda>r. resolveUsageFault r e) xs s) = workerCount s
   \<and> responsibleFor (fold (\<lambda>r. resolveUsageFault r e) xs s) = responsibleFor s"
  by (induction xs arbitrary: s) (auto simp: resolveUsageFault_def split: option.splits)


lemma resolveAll_result:
  "result (resolveAll xs s) r
     = (if r \<in> set xs \<and> result s r = None
        then Some (newUsageFaultResult (Some (ErrSelfDependency (map RequestID xs))))
        else result s r)"
  by (simp add: resolveAll_def fold_fault_result)

lemma resolveAll_graph:
  "awaiting (resolveAll xs s) = awaiting s" "responsible (resolveAll xs s) = responsible s"
  "reqCount (resolveAll xs s) = reqCount s" "workerCount (resolveAll xs s) = workerCount s"
  "responsibleFor (resolveAll xs s) = responsibleFor s"
  by (simp_all add: resolveAll_def fold_fault_graph)

lemmas model_defs =
  Promise_Await_def await_def await_claim_def await_wait_def await_release_def
  await_resume_def detectSelfDependency_def resolveAll_def resolveUsageFault_def
  resolveExplicit_def Report_def newExplicitResult_def newUsageFaultResult_def
  NewRequest_def newRequestInner_def NewWorker_def newWorkerInner_def
  setResponsibleWorker_def handleDropped_def init_def Let_def







section \<open>Dropped workers and the \<open>responsibleFor\<close> map\<close>

text \<open>
  What \<^verbatim>\<open>handleDropped\<close> does to the results: each request in the worker's
  \<^verbatim>\<open>responsibleFor\<close> map that is unresolved gets the usage fault with
  \<^verbatim>\<open>ErrUnresolved\<close> and its own id; all other results stay.
\<close>

lemma fold_unresolved_result:
  "result (fold (\<lambda>req. resolveUsageFault req (Some (ErrUnresolved (RequestID req)))) xs s) r
     = (if r \<in> set xs \<and> result s r = None
        then Some (newUsageFaultResult (Some (ErrUnresolved (RequestID r))))
        else result s r)"
  by (induction xs arbitrary: s) (auto simp: resolveUsageFault_def split: option.splits)

lemma handleDropped_result:
  "result (handleDropped wi s) r
     = (if r \<in> set (responsibleFor s wi) \<and> result s r = None
        then Some (newUsageFaultResult (Some (ErrUnresolved (RequestID r))))
        else result s r)"
  by (simp add: handleDropped_def fold_unresolved_result)

lemma heap_delegated_facts:
  "responsible heap_delegated 0 = Suc 0" "result heap_delegated 0 = None"
  "responsibleFor heap_delegated (Suc 0) = []" "awaiting heap_delegated 0 = None"
  "awaiting heap_delegated (Suc 0) = None"
  by (simp_all add: heap_delegated_def heap_own_def model_defs)

text \<open>
  C3, at its failing input. Worker 1 has taken over request 0 and is dropped without
  resolving it. Its \<^verbatim>\<open>responsibleFor\<close> map is empty, so \<^verbatim>\<open>handleDropped\<close>
  changes nothing: the request stays unresolved and the await of the main worker blocks.
\<close>

theorem handleDropped_leaves_unresolved:
  "responsible heap_delegated 0 = 1 \<and> result heap_delegated 0 = None
   \<and> handleDropped 1 heap_delegated = heap_delegated
   \<and> result (handleDropped 1 heap_delegated) 0 = None
   \<and> map_option fst (Promise_Await 2 0 0 (handleDropped 1 heap_delegated)) = Some (Inr Blocked)"
  using heap_delegated_facts by (simp add: model_defs eval_nat_numeral)

text \<open>
  C4, at its failing input. After \<^verbatim>\<open>NewRequest(main)\<close> worker 0 is responsible for
  request 0, and after \<^verbatim>\<open>NewWorker(resolver)\<close> worker 1 is; in both heaps the
  \<^verbatim>\<open>responsibleFor\<close> map of the responsible worker is empty.
\<close>

theorem responsibleFor_not_filled:
  "responsible heap_own 0 = 0 \<and> responsibleFor heap_own 0 = []
   \<and> 0 \<notin> set (responsibleFor heap_own 0)
   \<and> responsible heap_delegated 0 = 1 \<and> responsibleFor heap_delegated 1 = []
   \<and> 0 \<notin> set (responsibleFor heap_delegated 1)"
  using heap_delegated_facts heap_own_facts by simp

section \<open>What the operations change\<close>

lemma loop_acc:
  "detectSelfDependency_loop n s W c cr cw acc = Some (b, fs) \<Longrightarrow> set acc \<subseteq> set fs"
proof (induction n arbitrary: cr cw acc)
  case 0
  then show ?case by simp
next
  case (Suc n)
  show ?case
  proof (cases "cw = W \<or> awaiting s cw = None \<or> responsible s cr \<noteq> cw")
    case True
    with Suc.prems show ?thesis by (auto split: if_splits option.splits)
  next
    case False
    then obtain r' where r': "awaiting s cw = Some r'" by auto
    with False Suc.prems
    have "detectSelfDependency_loop n s W c r' (responsible s r')
            (if c then acc @ [r'] else acc) = Some (b, fs)"
      by simp
    from Suc.IH [OF this] show ?thesis by (auto split: if_splits)
  qed
qed

lemma detect_collect_mem:
  "detectSelfDependency n s ri W True = Some (b, fs) \<Longrightarrow> ri \<in> set fs"
  using loop_acc [of n s W True ri "responsible s ri" "[ri]" b fs]
  by (simp add: detectSelfDependency_def)

lemma await_wait_effect:
  assumes "await_wait ri W s = (out, s')"
  shows "responsible s' = responsible s \<and> reqCount s' = reqCount s
       \<and> workerCount s' = workerCount s \<and> responsibleFor s' = responsibleFor s
       \<and> result s' = result s
       \<and> ((out = Inr Blocked \<and> result s ri = None \<and> s' = s)
          \<or> (\<exists>p. out = Inl p \<and> s' = s \<and> awaiting s W \<noteq> Some ri)
          \<or> (\<exists>res. out = Inr (Returned res) \<and> result s ri = Some res
                \<and> awaiting s W = Some ri \<and> awaiting s' = (awaiting s)(W := None)))"
  using assms
  by (auto simp: await_wait_def await_release_def split: option.splits if_splits)

lemma await_effect:
  assumes "await fuel ri W s = Some (out, s')"
  shows "responsible s' = responsible s \<and> reqCount s' = reqCount s
       \<and> workerCount s' = workerCount s \<and> responsibleFor s' = responsibleFor s
       \<and> (\<forall>r rr. result s r = Some rr \<longrightarrow> result s' r = Some rr)
       \<and> (\<forall>res. out = Inr (Returned res) \<longrightarrow> result s' ri = Some res)
       \<and> (awaiting s' = awaiting s
          \<or> (awaiting s W = None \<and> awaiting s' = (awaiting s)(W \<mapsto> ri)
              \<and> out = Inr Blocked \<and> result s' ri = None
              \<and> (\<exists>fs. detectSelfDependency fuel (s\<lparr> awaiting := (awaiting s)(W \<mapsto> ri) \<rparr>)
                          ri W False = Some (False, fs))))"
proof (cases "awaiting s W = None")
  case False
  with assms show ?thesis by (auto simp: await_def await_claim_def)
next
  case True
  let ?s1 = "s\<lparr> awaiting := (awaiting s)(W \<mapsto> ri) \<rparr>"
  have claim: "await_claim ri W s = Inr ?s1" using True by (simp add: await_claim_def)
  from assms claim obtain b fs where d0: "detectSelfDependency fuel ?s1 ri W False = Some (b, fs)"
    by (auto simp: await_def split: option.splits)
  have upd: "(awaiting s)(W := None) = awaiting s" using True by (auto simp: fun_eq_iff)
  show ?thesis
  proof (cases b)
    case False
    with assms claim d0 have w: "await_wait ri W ?s1 = (out, s')"
      by (simp add: await_def)
    from await_wait_effect [OF w] d0 False True upd show ?thesis
      by (elim conjE disjE exE) auto
  next
    case True
    with assms claim d0 obtain b' rs where
      d1: "detectSelfDependency fuel ?s1 ri W True = Some (b', rs)"
      and w: "await_wait ri W (resolveAll rs ?s1) = (out, s')"
      by (auto simp: await_def split: option.splits)
    have mem: "ri \<in> set rs" by (rule detect_collect_mem [OF d1])
    have res: "result (resolveAll rs ?s1) ri \<noteq> None"
      using mem by (simp add: resolveAll_result)
    from await_wait_effect [OF w] res upd show ?thesis
      by (elim conjE disjE exE) (auto simp: resolveAll_graph resolveAll_result)
  qed
qed

lemma Promise_Await_effect:
  assumes "Promise_Await fuel ri W s = Some (out, s')"
  shows "responsible s' = responsible s \<and> reqCount s' = reqCount s
       \<and> workerCount s' = workerCount s \<and> responsibleFor s' = responsibleFor s
       \<and> (\<forall>r rr. result s r = Some rr \<longrightarrow> result s' r = Some rr)
       \<and> (\<forall>res. out = Inr (Returned res) \<longrightarrow> result s' ri = Some res)
       \<and> (awaiting s' = awaiting s
          \<or> (awaiting s W = None \<and> awaiting s' = (awaiting s)(W \<mapsto> ri)
              \<and> out = Inr Blocked \<and> result s' ri = None
              \<and> (\<exists>fs. detectSelfDependency fuel (s\<lparr> awaiting := (awaiting s)(W \<mapsto> ri) \<rparr>)
                          ri W False = Some (False, fs))))"
proof (cases "awaiting s W \<noteq> None \<or> result s ri \<noteq> None")
  case True
  with assms show ?thesis by (auto simp: Promise_Await_def split: if_splits)
next
  case False
  with assms have "await fuel ri W s = Some (out, s')" by (simp add: Promise_Await_def)
  from await_effect [OF this] show ?thesis .
qed


lemma fold_setResponsible:
  "responsible (fold (\<lambda>inner. setResponsibleWorker inner N) ds s) r
     = (if r \<in> set ds then N else responsible s r)"
  "result (fold (\<lambda>inner. setResponsibleWorker inner N) ds s) = result s"
  "awaiting (fold (\<lambda>inner. setResponsibleWorker inner N) ds s) = awaiting s"
  "responsibleFor (fold (\<lambda>inner. setResponsibleWorker inner N) ds s) = responsibleFor s"
  "reqCount (fold (\<lambda>inner. setResponsibleWorker inner N) ds s) = reqCount s"
  "workerCount (fold (\<lambda>inner. setResponsibleWorker inner N) ds s) = workerCount s"
  by (induction ds arbitrary: s) (simp_all add: setResponsibleWorker_def)

lemma NewWorker_effect:
  "fst (NewWorker ds s) = workerCount s"
  "responsible (snd (NewWorker ds s)) r = (if r \<in> set ds then workerCount s else responsible s r)"
  "result (snd (NewWorker ds s)) = result s"
  "awaiting (snd (NewWorker ds s)) = (awaiting s)(workerCount s := None)"
  "responsibleFor (snd (NewWorker ds s)) = (responsibleFor s)(workerCount s := [])"
  "reqCount (snd (NewWorker ds s)) = reqCount s"
  "workerCount (snd (NewWorker ds s)) = Suc (workerCount s)"
  by (simp_all add: NewWorker_def newWorkerInner_def Let_def fold_setResponsible)

lemma NewRequest_effect:
  "fst (NewRequest w s) = reqCount s"
  "responsible (snd (NewRequest w s)) = (responsible s)(reqCount s := w)"
  "result (snd (NewRequest w s)) = (result s)(reqCount s := None)"
  "awaiting (snd (NewRequest w s)) = awaiting s"
  "responsibleFor (snd (NewRequest w s)) = responsibleFor s"
  "reqCount (snd (NewRequest w s)) = Suc (reqCount s)"
  "workerCount (snd (NewRequest w s)) = workerCount s"
  by (simp_all add: NewRequest_def newRequestInner_def Let_def setResponsibleWorker_def)

lemma resolveExplicit_graph:
  assumes "resolveExplicit ri w val err s = Inr s'"
  shows "responsible s' = responsible s" "awaiting s' = awaiting s"
    "responsibleFor s' = responsibleFor s" "reqCount s' = reqCount s"
    "workerCount s' = workerCount s"
  using assms
  by (auto simp: resolveExplicit_def newExplicitResult_def split: if_splits option.splits)

lemma fold_unresolved_graph:
  "awaiting (fold (\<lambda>req. resolveUsageFault req (e req)) xs s) = awaiting s
   \<and> responsible (fold (\<lambda>req. resolveUsageFault req (e req)) xs s) = responsible s
   \<and> reqCount (fold (\<lambda>req. resolveUsageFault req (e req)) xs s) = reqCount s
   \<and> workerCount (fold (\<lambda>req. resolveUsageFault req (e req)) xs s) = workerCount s
   \<and> responsibleFor (fold (\<lambda>req. resolveUsageFault req (e req)) xs s) = responsibleFor s"
  by (induction xs arbitrary: s) (auto simp: resolveUsageFault_def split: option.splits)

lemma handleDropped_graph:
  "awaiting (handleDropped w s) = awaiting s" "responsible (handleDropped w s) = responsible s"
  "reqCount (handleDropped w s) = reqCount s" "workerCount (handleDropped w s) = workerCount s"
  "responsibleFor (handleDropped w s) = responsibleFor s"
  using fold_unresolved_graph [of "\<lambda>req. Some (ErrUnresolved (RequestID req))" "responsibleFor s w" s]
  by (simp_all add: handleDropped_def)

lemma step_keeps_result:
  assumes "r < reqCount s" and "result s r = Some rr" and "step fuel x s = Some s'"
  shows "r < reqCount s' \<and> result s' r = Some rr"
proof (cases x)
  case (OpNewWorker ds)
  with assms show ?thesis by (auto simp: NewWorker_effect)
next
  case (OpNewRequest w)
  with assms show ?thesis by (auto simp: NewRequest_effect)
next
  case (OpReport ri w val err)
  show ?thesis
  proof (cases "Report ri w val err s")
    case (Inl p)
    with OpReport assms show ?thesis by auto
  next
    case (Inr s1)
    then have e: "resolveExplicit ri w val err s = Inr s1" by (simp add: Report_def)
    from OpReport Inr assms have "s' = s1" by simp
    with assms resolveExplicit_keeps [OF assms(2) e] resolveExplicit_graph(4) [OF e]
    show ?thesis by simp
  qed
next
  case (OpAwait ri w)
  with assms obtain out where "Promise_Await fuel ri w s = Some (out, s')" by auto
  from Promise_Await_effect [OF this] assms show ?thesis by simp
next
  case (OpResume ri w)
  with assms have "await_wait ri w s = (fst (await_wait ri w s), s')"
    by (auto simp: await_resume_def)
  from await_wait_effect [OF this] assms show ?thesis by simp
next
  case (OpDropped w)
  with assms show ?thesis by (auto simp: handleDropped_result handleDropped_graph)
qed


section \<open>Reports and awaits\<close>





section \<open>Termination of the walk\<close>

























section \<open>Once\<close>

lemma step_reqCount: "step fuel a s = Some s' \<Longrightarrow> reqCount s \<le> reqCount s'"
proof (cases a)
  case (OpNewWorker ds)
  assume "step fuel a s = Some s'"
  with OpNewWorker show ?thesis by (auto simp: NewWorker_effect)
next
  case (OpNewRequest w)
  assume "step fuel a s = Some s'"
  with OpNewRequest show ?thesis by (auto simp: NewRequest_effect)
next
  case (OpReport ri w val err)
  assume st: "step fuel a s = Some s'"
  show ?thesis
  proof (cases "Report ri w val err s")
    case (Inl p)
    with OpReport st show ?thesis by auto
  next
    case (Inr s1)
    then have e: "resolveExplicit ri w val err s = Inr s1" by (simp add: Report_def)
    from OpReport Inr st have "s' = s1" by simp
    with resolveExplicit_graph(4) [OF e] show ?thesis by simp
  qed
next
  case (OpAwait ri w)
  assume "step fuel a s = Some s'"
  with OpAwait obtain out where "Promise_Await fuel ri w s = Some (out, s')" by auto
  from Promise_Await_effect [OF this] show ?thesis by simp
next
  case (OpResume ri w)
  assume "step fuel a s = Some s'"
  with OpResume have "await_wait ri w s = (fst (await_wait ri w s), s')"
    by (auto simp: await_resume_def)
  from await_wait_effect [OF this] show ?thesis by simp
next
  case (OpDropped w)
  assume "step fuel a s = Some s'"
  with OpDropped show ?thesis by (auto simp: handleDropped_graph)
qed

lemma stepW_idle:
  assumes "once_idle x" and "stepW fuel a x = Some x'" and "\<And>w f. a \<noteq> OpDo w f"
  shows "once_idle x'"
proof (cases a)
  case (Lib b)
  with assms show ?thesis by (auto simp: once_idle_def split: if_splits)
next
  case (OpDo w f)
  with assms(3) [of w f] show ?thesis by simp
next
  case (OpDoResume w)
  with assms show ?thesis by (auto simp: once_idle_def)
next
  case (OpGo i)
  with assms show ?thesis by (auto simp: once_idle_def)
qed

lemma Once_Do_locked_first:
  assumes "once_promise x = None"
  shows "once_promise (Once_Do_locked w0 f x) = Some (reqCount (graph x))"
    "once_req_id (Once_Do_locked w0 f x) = RequestID (reqCount (graph x))"
    "goroutines (Once_Do_locked w0 f x)
       = goroutines x @ [(workerCount (graph x), f, reqCount (graph x))]"
    "in_Do (Once_Do_locked w0 f x) = in_Do x" "events (Once_Do_locked w0 f x) = events x"
    "graph (Once_Do_locked w0 f x)
       = snd (NewWorker [reqCount (graph x)] (snd (NewRequest w0 (graph x))))"
  using assms
  by (simp_all add: Once_Do_locked_def WithNewAsyncWorker_def Let_def split_beta
        NewRequest_effect NewWorker_effect)

lemma Once_Do_locked_later:
  "once_promise x = Some p \<Longrightarrow> Once_Do_locked w0 f x = x"
  by (simp add: Once_Do_locked_def)

lemma Once_Do_locked_graph:
  assumes "once_promise x = None"
  shows "responsible (graph (Once_Do_locked w0 f x)) (reqCount (graph x)) = workerCount (graph x)"
    "awaiting (graph (Once_Do_locked w0 f x)) (workerCount (graph x)) = None"
    "result (graph (Once_Do_locked w0 f x)) (reqCount (graph x)) = None"
    "reqCount (graph (Once_Do_locked w0 f x)) = Suc (reqCount (graph x))"
  by (simp_all add: Once_Do_locked_first(6) [OF assms] NewWorker_effect NewRequest_effect)


lemma Do_starts:
  assumes idle: "once_idle x" and st: "stepW fuel (OpDo w0 f) x = Some x'"
  shows "once_started f (workerCount (graph x)) (reqCount (graph x)) x'"
proof -
  let ?N = "workerCount (graph x)" and ?p = "reqCount (graph x)"
  let ?x1 = "Once_Do_locked w0 f x"
  from idle have none: "once_promise x = None" and g: "goroutines x = []"
    and d: "in_Do x = []" and e: "events x = []"
    by (simp_all add: once_idle_def)
  note first = Once_Do_locked_first [OF none, of w0 f]
  from st obtain out h where pa: "Promise_Await fuel ?p w0 (graph ?x1) = Some (out, h)"
    and x': "x' = (case out of
                Inl q \<Rightarrow> ?x1\<lparr> graph := h \<rparr>
              | Inr Blocked \<Rightarrow> ?x1\<lparr> graph := h, in_Do := [(w0, ?p)] \<rparr>
              | Inr (Returned res) \<Rightarrow> ?x1\<lparr> graph := h, events := [DoReturned w0 res] \<rparr>)"
    by (auto simp: Once_Do_def first d e split: if_splits option.splits sum.splits outcome.splits)
  from Promise_Await_effect [OF pa]
  have rc: "reqCount h = reqCount (graph ?x1)"
    and ret: "\<And>res. out = Inr (Returned res) \<Longrightarrow> result h ?p = Some res"
    by simp_all
  have lt: "?p < reqCount h"
    using rc by (simp add: Once_Do_locked_graph [OF none])
  show ?thesis
  proof (cases out)
    case (Inl q)
    with x' first g e d lt show ?thesis by (simp add: once_started_def)
  next
    case (Inr o1)
    show ?thesis
    proof (cases o1)
      case Blocked
      with Inr x' first g e d lt show ?thesis by (simp add: once_started_def)
    next
      case (Returned res)
      with Inr x' first g e d lt ret [of res] show ?thesis by (simp add: once_started_def)
    qed
  qed
qed

lemma stepW_started:
  assumes q: "once_started f N p x" and st: "stepW fuel a x = Some x'"
  shows "once_started f N p x'"
proof -
  from q have prom: "once_promise x = Some p" and lt: "p < reqCount (graph x)"
    and gs: "set (goroutines x) \<subseteq> {(N, f, p)}"
    and cnt: "length (goroutines x) + length (filter is_Invoked (events x)) \<le> 1"
    and ev: "\<forall>e \<in> set (events x). e = Invoked N f
            \<or> (\<exists>w res. e = DoReturned w res \<and> result (graph x) p = Some res)"
    and fr: "\<forall>fr \<in> set (in_Do x). snd fr = p"
    by (simp_all add: once_started_def)
  have keep: "once_started f N p (x\<lparr> graph := h \<rparr>)"
    if "reqCount (graph x) \<le> reqCount h"
      and "\<And>rr. result (graph x) p = Some rr \<Longrightarrow> result h p = Some rr" for h
    using that prom lt gs cnt ev fr by (fastforce simp: once_started_def)
  show ?thesis
  proof (cases a)
    case (Lib b)
    with st obtain h where sb: "step fuel b (graph x) = Some h" and x': "x' = x\<lparr> graph := h \<rparr>"
      by (auto split: if_splits)
    have "result h p = Some rr" if "result (graph x) p = Some rr" for rr
      using step_keeps_result [OF lt that sb] by simp
    with keep [OF step_reqCount [OF sb]] x' show ?thesis by simp
  next
    case (OpDo w g)
    have same: "Once_Do_locked w g x = x" by (rule Once_Do_locked_later [OF prom])
    from st OpDo obtain out h where pa: "Promise_Await fuel p w (graph x) = Some (out, h)"
      and x': "x' = (case out of
                Inl q \<Rightarrow> x\<lparr> graph := h \<rparr>
              | Inr Blocked \<Rightarrow> x\<lparr> graph := h, in_Do := in_Do x @ [(w, p)] \<rparr>
              | Inr (Returned res) \<Rightarrow>
                  x\<lparr> graph := h, events := events x @ [DoReturned w res] \<rparr>)"
      by (auto simp: Once_Do_def same prom
            split: if_splits option.splits sum.splits outcome.splits)
    from Promise_Await_effect [OF pa]
    have rc: "reqCount h = reqCount (graph x)"
      and kp: "\<And>rr. result (graph x) p = Some rr \<Longrightarrow> result h p = Some rr"
      and ret: "\<And>res. out = Inr (Returned res) \<Longrightarrow> result h p = Some res"
      by simp_all
    from keep [of h] rc kp have k: "once_started f N p (x\<lparr> graph := h \<rparr>)" by simp
    show ?thesis
    proof (cases out)
      case (Inl q)
      with x' k show ?thesis by simp
    next
      case (Inr o1)
      show ?thesis
      proof (cases o1)
        case Blocked
        with Inr x' k show ?thesis by (simp add: once_started_def)
      next
        case (Returned res)
        with Inr x' k ret [of res] show ?thesis by (simp add: once_started_def)
      qed
    qed
  next
    case (OpDoResume w)
    with st obtain ri where m: "map_of (in_Do x) w = Some ri"
      by (auto split: option.splits)
    from map_of_SomeD [OF m] fr have ri: "ri = p" by auto
    obtain out h where ar: "await_wait p w (graph x) = (out, h)" by (cases "await_wait p w (graph x)")
    from await_wait_effect [OF ar]
    have rc: "reqCount h = reqCount (graph x)" and res: "result h = result (graph x)"
      and ret: "\<And>res. out = Inr (Returned res) \<Longrightarrow> result (graph x) p = Some res"
      by auto
    from keep [of h] rc res have k: "once_started f N p (x\<lparr> graph := h \<rparr>)" by simp
    from st OpDoResume m ri ar
    have x': "x' = (case out of
                Inl q \<Rightarrow> x\<lparr> graph := h, in_Do := remove1 (w, p) (in_Do x) \<rparr>
              | Inr Blocked \<Rightarrow> x\<lparr> graph := h \<rparr>
              | Inr (Returned res) \<Rightarrow>
                  x\<lparr> graph := h, in_Do := remove1 (w, p) (in_Do x),
                     events := events x @ [DoReturned w res] \<rparr>)"
      by (auto simp: await_resume_def split: sum.splits outcome.splits)
    have rem: "\<forall>fr \<in> set (remove1 (w, p) (in_Do x)). snd fr = p"
      using fr set_remove1_subset [of "(w, p)" "in_Do x"] by blast
    show ?thesis
    proof (cases out)
      case (Inl q)
      with x' k rem show ?thesis by (simp add: once_started_def)
    next
      case (Inr o1)
      show ?thesis
      proof (cases o1)
        case Blocked
        with Inr x' k show ?thesis by simp
      next
        case (Returned r1)
        with Inr x' k rem ret [of r1] res show ?thesis by (simp add: once_started_def)
      qed
    qed
  next
    case (OpGo i)
    with st have i: "i < length (goroutines x)" by (auto split: if_splits)
    then have "goroutines x ! i \<in> set (goroutines x)" by simp
    with gs have gi: "goroutines x ! i = (N, f, p)" by auto
    from st OpGo i gi
    have x': "x' = x\<lparr> goroutines := take i (goroutines x) @ drop (Suc i) (goroutines x),
                       events := events x @ [Invoked N f] \<rparr>"
      by simp
    have sub: "set (take i (goroutines x) @ drop (Suc i) (goroutines x)) \<subseteq> {(N, f, p)}"
      using gs set_take_subset [of i "goroutines x"] set_drop_subset [of "Suc i" "goroutines x"]
      by auto
    have len: "length (take i (goroutines x) @ drop (Suc i) (goroutines x))
                 = length (goroutines x) - 1"
      using i by simp
    from cnt i have l1: "length (goroutines x) = 1"
      and f0: "length (filter is_Invoked (events x)) = 0"
      by arith+
    from x' prom lt sub len l1 f0 ev fr show ?thesis
      by (simp add: once_started_def)
  qed
qed

lemma runW_started:
  "once_started f N p x \<Longrightarrow> runW fuel as x = Some x' \<Longrightarrow> once_started f N p x'"
proof (induction as arbitrary: x)
  case Nil
  then show ?case by simp
next
  case (Cons a as)
  from Cons.prems(2) obtain x1 where st: "stepW fuel a x = Some x1"
    and rn: "runW fuel as x1 = Some x'"
    by (auto split: option.splits)
  from Cons.IH [OF stepW_started [OF Cons.prems(1) st] rn] show ?case .
qed

lemma runW_cases:
  assumes "once_idle x0" and "runW fuel ops x0 = Some x"
  shows "(once_idle x \<and> (\<forall>w g. OpDo w g \<notin> set ops))
       \<or> (\<exists>pre w0 f post x1. ops = pre @ OpDo w0 f # post \<and> (\<forall>w g. OpDo w g \<notin> set pre)
            \<and> runW fuel pre x0 = Some x1 \<and> once_idle x1
            \<and> once_started f (workerCount (graph x1)) (reqCount (graph x1)) x)"
  using assms
proof (induction ops arbitrary: x0)
  case Nil
  then show ?case by simp
next
  case (Cons a as)
  from Cons.prems(2) obtain x' where st: "stepW fuel a x0 = Some x'"
    and rn: "runW fuel as x' = Some x"
    by (auto split: option.splits)
  show ?case
  proof (cases "\<exists>w0 f. a = OpDo w0 f")
    case True
    then obtain w0 f where a: "a = OpDo w0 f" by blast
    from Do_starts [OF Cons.prems(1)] st a
    have "once_started f (workerCount (graph x0)) (reqCount (graph x0)) x'" by simp
    from runW_started [OF this rn]
    have "once_started f (workerCount (graph x0)) (reqCount (graph x0)) x" .
    moreover have "a # as = [] @ OpDo w0 f # as" using a by simp
    moreover have "runW fuel [] x0 = Some x0" by simp
    ultimately show ?thesis using Cons.prems(1) by fastforce
  next
    case False
    then have idle: "once_idle x'" using stepW_idle [OF Cons.prems(1) st] by blast
    from Cons.IH [OF idle rn] show ?thesis
    proof
      assume "once_idle x \<and> (\<forall>w g. OpDo w g \<notin> set as)"
      with False show ?thesis by auto
    next
      assume "\<exists>pre w0 f post x1. as = pre @ OpDo w0 f # post \<and> (\<forall>w g. OpDo w g \<notin> set pre)
            \<and> runW fuel pre x' = Some x1 \<and> once_idle x1
            \<and> once_started f (workerCount (graph x1)) (reqCount (graph x1)) x"
      then obtain pre w0 f post x1 where as: "as = pre @ OpDo w0 f # post"
        and nd: "\<forall>w g. OpDo w g \<notin> set pre" and rp: "runW fuel pre x' = Some x1"
        and i1: "once_idle x1"
        and q: "once_started f (workerCount (graph x1)) (reqCount (graph x1)) x"
        by blast
      have "a # as = (a # pre) @ OpDo w0 f # post" using as by simp
      moreover have "\<forall>w g. OpDo w g \<notin> set (a # pre)" using nd False by auto
      moreover have "runW fuel (a # pre) x0 = Some x1" using st rp by simp
      ultimately show ?thesis using i1 q by blast
    qed
  qed
qed

text \<open>
  C7. Take any execution that starts with a fresh \<^verbatim>\<open>Once\<close>: calls of \<^verbatim>\<open>Do\<close> by
  any workers with any functions, wake-ups, goroutine starts and operations of the
  package in any order. At most one function call is ever made. If one is made, it is
  the function given to the first call of \<^verbatim>\<open>Do\<close>, on the worker that this call
  created: the next unallocated worker address at that moment, which awaited nothing
  and was made responsible for the request of the \<^verbatim>\<open>Once\<close>. Every call of
  \<^verbatim>\<open>Do\<close> that has returned has returned the resolution stored in that one request,
  so any two of them have returned the same.
\<close>

theorem once_do_once:
  assumes rn: "runW fuel ops (new_Once h) = Some x"
  shows "length (filter is_Invoked (events x)) \<le> 1
     \<and> (\<forall>w f. Invoked w f \<in> set (events x) \<longrightarrow>
           (\<exists>pre w0 post x1. ops = pre @ OpDo w0 f # post \<and> (\<forall>w1 g. OpDo w1 g \<notin> set pre)
              \<and> runW fuel pre (new_Once h) = Some x1
              \<and> w = workerCount (graph x1)
              \<and> once_promise x = Some (reqCount (graph x1))
              \<and> responsible (graph (Once_Do_locked w0 f x1)) (reqCount (graph x1)) = w
              \<and> awaiting (graph (Once_Do_locked w0 f x1)) w = None))
     \<and> (\<forall>w res. DoReturned w res \<in> set (events x) \<longrightarrow>
           (\<exists>p. once_promise x = Some p \<and> result (graph x) p = Some res))
     \<and> (\<forall>w res w' res'. DoReturned w res \<in> set (events x)
           \<longrightarrow> DoReturned w' res' \<in> set (events x) \<longrightarrow> res = res')"
proof -
  have idle: "once_idle (new_Once h :: ('a, 'b, 'c) world)"
    by (simp add: once_idle_def new_Once_def)
  from runW_cases [OF idle rn] show ?thesis
  proof
    assume "once_idle x \<and> (\<forall>w g. OpDo w g \<notin> set ops)"
    then have "events x = []" by (simp add: once_idle_def)
    then show ?thesis by simp
  next
    assume "\<exists>pre w0 f post x1. ops = pre @ OpDo w0 f # post \<and> (\<forall>w g. OpDo w g \<notin> set pre)
            \<and> runW fuel pre (new_Once h) = Some x1 \<and> once_idle x1
            \<and> once_started f (workerCount (graph x1)) (reqCount (graph x1)) x"
    then obtain pre w0 f post x1 where ops: "ops = pre @ OpDo w0 f # post"
      and nd: "\<forall>w g. OpDo w g \<notin> set pre" and rp: "runW fuel pre (new_Once h) = Some x1"
      and i1: "once_idle x1"
      and q: "once_started f (workerCount (graph x1)) (reqCount (graph x1)) x"
      by blast
    let ?N = "workerCount (graph x1)" and ?p = "reqCount (graph x1)"
    from i1 have none: "once_promise x1 = None" by (simp add: once_idle_def)
    from q have prom: "once_promise x = Some ?p"
      and cnt: "length (filter is_Invoked (events x)) \<le> 1"
      and ev: "\<forall>e \<in> set (events x). e = Invoked ?N f
            \<or> (\<exists>w res. e = DoReturned w res \<and> result (graph x) ?p = Some res)"
      by (simp_all add: once_started_def)
    have a: "\<exists>pre w0 post x1. ops = pre @ OpDo w0 g # post \<and> (\<forall>w1 g. OpDo w1 g \<notin> set pre)
              \<and> runW fuel pre (new_Once h) = Some x1
              \<and> w = workerCount (graph x1)
              \<and> once_promise x = Some (reqCount (graph x1))
              \<and> responsible (graph (Once_Do_locked w0 g x1)) (reqCount (graph x1)) = w
              \<and> awaiting (graph (Once_Do_locked w0 g x1)) w = None"
      if "Invoked w g \<in> set (events x)" for w g
    proof -
      from that ev have "w = ?N" and "g = f" by auto
      with ops nd rp prom Once_Do_locked_graph(1,2) [OF none, of w0 f] show ?thesis by blast
    qed
    have b: "\<exists>p. once_promise x = Some p \<and> result (graph x) p = Some res"
      if "DoReturned w res \<in> set (events x)" for w res
      using that ev prom by auto
    have c: "res = res'"
      if "DoReturned w res \<in> set (events x)" and "DoReturned w' res' \<in> set (events x)"
      for w res w' res'
    proof -
      from that(1) ev have "result (graph x) ?p = Some res" by auto
      moreover from that(2) ev have "result (graph x) ?p = Some res'" by auto
      ultimately show ?thesis by simp
    qed
    from cnt a b c show ?thesis by blast
  qed
qed

lemmas world_defs = world_twice_def new_Once_def Once_Do_def Once_Do_locked_def
  WithNewAsyncWorker_def

lemma world_twice_run:
  "runW 2 [Lib (OpNewWorker []), Lib (OpNewWorker []), OpDo 0 10, OpDo 1 20, OpGo 0,
           Lib (OpReport 0 2 (Some 7) None), OpDoResume 0, OpDoResume 1] (new_Once init)
     = Some world_twice"
  by (simp add: world_defs model_defs eval_nat_numeral)

lemma world_twice_events:
  "events world_twice
     = [Invoked 2 10, DoReturned 0 \<lparr> res_value = Some 7, res_err = None \<rparr>,
        DoReturned 1 \<lparr> res_value = Some 7, res_err = None \<rparr>]"
  by (simp add: world_defs model_defs eval_nat_numeral)

theorem once_do_once_witness:
  "runW 2 [Lib (OpNewWorker []), Lib (OpNewWorker []), OpDo 0 10, OpDo 1 20, OpGo 0,
           Lib (OpReport 0 2 (Some 7) None), OpDoResume 0, OpDoResume 1] (new_Once init)
     = Some world_twice
   \<and> events world_twice
       = [Invoked 2 10, DoReturned 0 \<lparr> res_value = Some 7, res_err = None \<rparr>,
          DoReturned 1 \<lparr> res_value = Some 7, res_err = None \<rparr>]
   \<and> length (filter is_Invoked (events world_twice)) \<le> 1
   \<and> (\<exists>p. once_promise world_twice = Some p
          \<and> result (graph world_twice) p = Some \<lparr> res_value = Some 7, res_err = None \<rparr>)"
proof -
  have m: "DoReturned 0 \<lparr> res_value = Some 7, res_err = None \<rparr> \<in> set (events world_twice)"
    by (simp add: world_twice_events)
  from once_do_once [OF world_twice_run] m world_twice_run world_twice_events
  show ?thesis by blast
qed

end
